theory Spec2Isabelle
  imports Main
begin

section \<open>The listener collection of \<open>utils/Subscription.ts\<close>\<close>

text \<open>
  \<open>createListenerCollection\<close> keeps its listeners in a doubly linked list of
  \<open>Listener\<close> objects. Objects are referred to by address; a nullable reference is an
  \<open>addr option\<close>. The objects a collection creates are reachable from that collection
  only, so every collection carries the store of its own \<open>Listener\<close> objects.
\<close>

type_synonym addr = nat

record 'c listener =
  callback :: 'c
  next' :: "addr option"
  prev :: "addr option"

text \<open>
  The variables one call of \<open>createListenerCollection\<close> closes over: \<open>first\<close> and
  \<open>last\<close>, the \<open>Listener\<close> objects allocated by \<open>subscribe\<close> (\<open>heap\<close>, with \<open>fresh\<close>
  the next unused address) and, for every call of \<open>subscribe\<close>, its local variable
  \<open>isSubscribed\<close>, kept under the address of the listener that call created. What
  an address holds before \<open>subscribe\<close> has allocated it is left unspecified; a
  reference is only ever made to an allocated object.
\<close>

record 'c collection =
  first :: "addr option"
  last' :: "addr option"
  heap :: "addr \<Rightarrow> 'c listener"
  isSubscribed :: "addr \<Rightarrow> bool"
  fresh :: addr

definition createListenerCollection :: "'c collection" where
  "createListenerCollection =
     \<lparr>first = None, last' = None, heap = (\<lambda>_. undefined),
      isSubscribed = (\<lambda>_. False), fresh = 0\<rparr>"

definition clear :: "'c collection \<Rightarrow> 'c collection" where
  "clear r = r\<lparr>first := None, last' := None\<rparr>"

text \<open>The loop of \<open>get\<close>; on a cyclic list it does not return, which is the value \<open>None\<close>.\<close>

partial_function (option) get_loop ::
  "(addr \<Rightarrow> 'c listener) \<Rightarrow> addr option \<Rightarrow> addr list \<Rightarrow> addr list option" where
  "get_loop h listener listeners =
     (case listener of
        None \<Rightarrow> Some listeners
      | Some l \<Rightarrow> get_loop h (next' (h l)) (listeners @ [l]))"

declare get_loop.simps [code]

definition get :: "'c collection \<Rightarrow> addr list option" where
  "get r = get_loop (heap r) (first r) []"

text \<open>
  \<open>subscribe\<close> returns the closure \<open>unsubscribe\<close>; the closure is determined by the
  listener it captured, so the model returns that listener's address, and
  \<open>unsubscribe l\<close> is the call of the closure.
\<close>

definition subscribe :: "'c \<Rightarrow> 'c collection \<Rightarrow> addr \<times> 'c collection" where
  "subscribe cb r =
     (let l = fresh r;
          r1 = r\<lparr>fresh := Suc l,
                 isSubscribed := (isSubscribed r)(l := True),
                 heap := (heap r)(l := \<lparr>callback = cb, next' = None, prev = last' r\<rparr>),
                 last' := Some l\<rparr>
      in (l, case prev (heap r1 l) of
               Some p \<Rightarrow> r1\<lparr>heap := (heap r1)(p := (heap r1 p)\<lparr>next' := Some l\<rparr>)\<rparr>
             | None \<Rightarrow> r1\<lparr>first := Some l\<rparr>))"

definition unsubscribe :: "addr \<Rightarrow> 'c collection \<Rightarrow> 'c collection" where
  "unsubscribe l r =
     (if \<not> isSubscribed r l \<or> first r = None then r
      else
        let r1 = r\<lparr>isSubscribed := (isSubscribed r)(l := False)\<rparr>;
            r2 = (case next' (heap r1 l) of
                    Some n \<Rightarrow> r1\<lparr>heap := (heap r1)(n := (heap r1 n)\<lparr>prev := prev (heap r1 l)\<rparr>)\<rparr>
                  | None \<Rightarrow> r1\<lparr>last' := prev (heap r1 l)\<rparr>)
        in (case prev (heap r2 l) of
              Some p \<Rightarrow> r2\<lparr>heap := (heap r2)(p := (heap r2 p)\<lparr>next' := next' (heap r2 l)\<rparr>)\<rparr>
            | None \<Rightarrow> r2\<lparr>first := next' (heap r2 l)\<rparr>))"

section \<open>Subscriptions\<close>

text \<open>
  A \<open>Subscription\<close> is identified by how \<open>createSubscription\<close> made it: \<open>Root k\<close> was
  made without a parent, \<open>Child k p\<close> with \<open>parentSub = p\<close>; the parent never changes.
  The functions that are passed around as values are the closures below. \<open>Listener k body\<close>
  is a callback of the code that uses the subscription, with what it does
  while it runs as a list of calls.
\<close>

datatype subref = Root nat | Child nat subref

datatype closure =
    Unsubscribe addr addr
  | HandleChangeWrapper subref
  | NotifyNestedSubs subref
  | Listener nat "stmt list"
and stmt =
    Call closure
  | Subscribe addr closure
  | Notify addr
  | Clear addr
  | AddNestedSub subref closure
  | TrySubscribe subref
  | TryUnsubscribe subref
  | SetOnStateChange subref "closure option"

text \<open>
  The value of the variable \<open>listeners\<close>: the object \<open>nullListeners\<close>, which has
  \<open>notify\<close> and \<open>get\<close> only, or a collection made by \<open>createListenerCollection\<close>.
\<close>

datatype listeners_ref = nullListeners | Collection addr

text \<open>
  The variables of one \<open>createSubscription\<close> call. \<open>unsubscribe'\<close> holds what
  \<open>addNestedSub\<close> or \<open>store.subscribe\<close> returned: the \<open>unsubscribe\<close> closure of a
  collection and a listener.
\<close>

record subscription =
  unsubscribe' :: "(addr \<times> addr) option"
  listeners :: listeners_ref
  onStateChange :: "closure option"

text \<open>
  The whole state: the collections, by address; the subscriptions; and \<open>trace\<close>, which
  records every call \<open>listener.callback()\<close> made by a \<open>notify\<close> loop, as the collection
  and the listener.
\<close>

record state =
  colls :: "addr \<Rightarrow> closure collection"
  cfresh :: addr
  subs :: "subref \<Rightarrow> subscription"
  trace :: "(addr \<times> addr) list"

datatype error = TypeError

type_synonym 'a result = "(error + 'a) option"

text \<open>\<open>seq m k\<close> continues with \<open>k\<close> when \<open>m\<close> returned, and else stops as \<open>m\<close> did.\<close>

definition seq :: "'a result \<Rightarrow> ('a \<Rightarrow> 'b result) \<Rightarrow> 'b result" where
  "seq m k = (case m of None \<Rightarrow> None | Some (Inl e) \<Rightarrow> Some (Inl e) | Some (Inr x) \<Rightarrow> k x)"

text \<open>
  Modelled from the spec: \<open>batch\<close>, which \<open>getBatch()\<close> of the missing module
  \<open>./batch\<close> returns, executes the work it is given synchronously.
\<close>

definition batch :: "('s \<Rightarrow> 'r) \<Rightarrow> 's \<Rightarrow> 'r" where
  "batch work = work"

text \<open>
  Modelled from the spec: the store is not part of the sources; its \<open>subscribe\<close> has the
  semantics of the collection's \<open>subscribe\<close>. The store's listeners are the collection at
  the address \<open>store\<close>, and a change of the store is \<open>notify\<close> on that collection.
\<close>

definition store :: addr where
  "store = 0"

definition createSubscription :: subscription where
  "createSubscription = \<lparr>unsubscribe' = None, listeners = nullListeners, onStateChange = None\<rparr>"

definition init_state :: state where
  "init_state =
     \<lparr>colls = (\<lambda>_. createListenerCollection), cfresh = Suc store,
      subs = (\<lambda>_. createSubscription), trace = []\<rparr>"

definition with_coll ::
  "addr \<Rightarrow> (closure collection \<Rightarrow> closure collection) \<Rightarrow> state \<Rightarrow> state" where
  "with_coll c f s = s\<lparr>colls := (colls s)(c := f (colls s c))\<rparr>"

definition coll_subscribe :: "addr \<Rightarrow> closure \<Rightarrow> state \<Rightarrow> (addr \<times> addr) \<times> state" where
  "coll_subscribe c cb s =
     ((c, fst (subscribe cb (colls s c))), with_coll c (\<lambda>r. snd (subscribe cb r)) s)"

definition new_collection :: "state \<Rightarrow> addr \<times> state" where
  "new_collection s =
     (cfresh s,
      s\<lparr>colls := (colls s)(cfresh s := createListenerCollection), cfresh := Suc (cfresh s)\<rparr>)"

text \<open>The two assignments of \<open>trySubscribe\<close>, once the upstream \<open>subscribe\<close> has returned \<open>u\<close>.\<close>

definition attach :: "subref \<Rightarrow> addr \<times> addr \<Rightarrow> state \<Rightarrow> state" where
  "attach r u s =
     (let s1 = s\<lparr>subs := (subs s)(r := (subs s r)\<lparr>unsubscribe' := Some u\<rparr>)\<rparr>;
          (c, s2) = new_collection s1
      in s2\<lparr>subs := (subs s2)(r := (subs s2 r)\<lparr>listeners := Collection c\<rparr>)\<rparr>)"

text \<open>
  \<open>listeners.subscribe\<close> on \<open>nullListeners\<close> calls a property that is not there, which
  throws a \<open>TypeError\<close>; so does \<open>listeners.clear\<close>.
\<close>

fun trySubscribe :: "subref \<Rightarrow> state \<Rightarrow> error + state"
and addNestedSub :: "subref \<Rightarrow> closure \<Rightarrow> state \<Rightarrow> error + ((addr \<times> addr) \<times> state)" where
  "trySubscribe (Root k) s =
     (case unsubscribe' (subs s (Root k)) of
        Some u \<Rightarrow> Inr s
      | None \<Rightarrow> Inr (attach (Root k) (fst (coll_subscribe store (HandleChangeWrapper (Root k)) s))
                       (snd (coll_subscribe store (HandleChangeWrapper (Root k)) s))))"
| "trySubscribe (Child k p) s =
     (case unsubscribe' (subs s (Child k p)) of
        Some u \<Rightarrow> Inr s
      | None \<Rightarrow>
          (case addNestedSub p (HandleChangeWrapper (Child k p)) s of
             Inl e \<Rightarrow> Inl e
           | Inr (u, s1) \<Rightarrow> Inr (attach (Child k p) u s1)))"
| "addNestedSub r listener s =
     (case trySubscribe r s of
        Inl e \<Rightarrow> Inl e
      | Inr s1 \<Rightarrow>
          (case listeners (subs s1 r) of
             nullListeners \<Rightarrow> Inl TypeError
           | Collection c \<Rightarrow> Inr (coll_subscribe c listener s1)))"

definition tryUnsubscribe :: "subref \<Rightarrow> state \<Rightarrow> error + state" where
  "tryUnsubscribe r s =
     (case unsubscribe' (subs s r) of
        None \<Rightarrow> Inr s
      | Some (c, l) \<Rightarrow>
          (let s1 = with_coll c (unsubscribe l) s;
               s2 = s1\<lparr>subs := (subs s1)(r := (subs s1 r)\<lparr>unsubscribe' := None\<rparr>)\<rparr>
           in case listeners (subs s2 r) of
                nullListeners \<Rightarrow> Inl TypeError
              | Collection lc \<Rightarrow>
                  (let s3 = with_coll lc clear s2
                   in Inr (s3\<lparr>subs := (subs s3)(r := (subs s3 r)\<lparr>listeners := nullListeners\<rparr>)\<rparr>))))"

definition isSubscribed' :: "subref \<Rightarrow> state \<Rightarrow> bool" where
  "isSubscribed' r s = (unsubscribe' (subs s r) \<noteq> None)"

definition getListeners :: "subref \<Rightarrow> state \<Rightarrow> listeners_ref" where
  "getListeners r s = listeners (subs s r)"

text \<open>\<open>get\<close> of the object \<open>getListeners\<close> returned.\<close>

fun ref_get :: "listeners_ref \<Rightarrow> state \<Rightarrow> addr list option" where
  "ref_get nullListeners s = Some []"
| "ref_get (Collection c) s = get (colls s c)"

section \<open>Running closures\<close>

text \<open>
  Callbacks run other callbacks, and nothing bounds how long that goes on, so the
  functions that call closures take fuel: the result \<open>None\<close> says the fuel ran out,
  \<open>Some (Inl e)\<close> that an exception was thrown and not caught, \<open>Some (Inr s)\<close> that the
  call returned in state \<open>s\<close>. \<open>exec\<close> calls a closure (\<open>handleChangeWrapper\<close>,
  \<open>notifyNestedSubs\<close>, an \<open>unsubscribe\<close>, a listener of the using code); \<open>notify\<close> is
  the collection's \<open>notify\<close> and \<open>walk\<close> its loop; \<open>run\<close> and \<open>step\<close> execute what
  the using code does.
\<close>

fun exec :: "nat \<Rightarrow> closure \<Rightarrow> state \<Rightarrow> state result"
and notify :: "nat \<Rightarrow> addr \<Rightarrow> state \<Rightarrow> state result"
and walk :: "nat \<Rightarrow> addr \<Rightarrow> addr option \<Rightarrow> state \<Rightarrow> state result"
and run :: "nat \<Rightarrow> stmt list \<Rightarrow> state \<Rightarrow> state result"
and step :: "nat \<Rightarrow> stmt \<Rightarrow> state \<Rightarrow> state result" where
  "exec 0 f s = None"
| "exec (Suc n) (Unsubscribe c l) s = Some (Inr (with_coll c (unsubscribe l) s))"
| "exec (Suc n) (HandleChangeWrapper r) s =
     (case onStateChange (subs s r) of
        Some f \<Rightarrow> exec n f s
      | None \<Rightarrow> Some (Inr s))"
| "exec (Suc n) (NotifyNestedSubs r) s =
     (case listeners (subs s r) of
        nullListeners \<Rightarrow> Some (Inr s)
      | Collection c \<Rightarrow> notify n c s)"
| "exec (Suc n) (Listener k body) s = run n body s"
| "notify n c s = batch (\<lambda>s. walk n c (first (colls s c)) s) s"
| "walk 0 c listener s = None"
| "walk (Suc n) c None s = Some (Inr s)"
| "walk (Suc n) c (Some l) s =
     seq (exec n (callback (heap (colls s c) l)) (s\<lparr>trace := trace s @ [(c, l)]\<rparr>))
         (\<lambda>s'. walk n c (next' (heap (colls s' c) l)) s')"
| "run n [] s = Some (Inr s)"
| "run n (x # xs) s = seq (step n x s) (run n xs)"
| "step n (Call f) s = exec n f s"
| "step n (Subscribe c f) s = Some (Inr (snd (coll_subscribe c f s)))"
| "step n (Notify c) s = notify n c s"
| "step n (Clear c) s = Some (Inr (with_coll c clear s))"
| "step n (AddNestedSub r f) s =
     (case addNestedSub r f s of Inl e \<Rightarrow> Some (Inl e) | Inr (u, s') \<Rightarrow> Some (Inr s'))"
| "step n (TrySubscribe r) s = Some (trySubscribe r s)"
| "step n (TryUnsubscribe r) s = Some (tryUnsubscribe r s)"
| "step n (SetOnStateChange r f) s =
     Some (Inr (s\<lparr>subs := (subs s)(r := (subs s r)\<lparr>onStateChange := f\<rparr>)\<rparr>))"

section \<open>Sequences of calls on one collection, and the shape of its list\<close>

datatype 'c call = SubscribeCall 'c | UnsubscribeCall addr

fun calls :: "'c call list \<Rightarrow> 'c collection \<Rightarrow> 'c collection" where
  "calls [] r = r"
| "calls (SubscribeCall cb # cs) r = calls cs (snd (subscribe cb r))"
| "calls (UnsubscribeCall l # cs) r = calls cs (unsubscribe l r)"

text \<open>
  A closure can be called only once \<open>subscribe\<close> has returned it: with \<open>n\<close> listeners
  subscribed so far, the closures are those of the listeners below \<open>n\<close>.
\<close>

fun closures_returned :: "nat \<Rightarrow> 'c call list \<Rightarrow> bool" where
  "closures_returned n [] = True"
| "closures_returned n (SubscribeCall cb # cs) = closures_returned (Suc n) cs"
| "closures_returned n (UnsubscribeCall l # cs) = (l < n \<and> closures_returned n cs)"

fun registered :: "'c call list \<Rightarrow> 'c list" where
  "registered [] = []"
| "registered (SubscribeCall cb # cs) = cb # registered cs"
| "registered (UnsubscribeCall l # cs) = registered cs"

text \<open>\<open>pathto f x as y\<close>: following \<open>f\<close> from \<open>x\<close> visits \<open>as\<close> and arrives at \<open>y\<close>.\<close>

fun pathto :: "(addr \<Rightarrow> addr option) \<Rightarrow> addr option \<Rightarrow> addr list \<Rightarrow> addr option \<Rightarrow> bool" where
  "pathto f x [] y = (x = y)"
| "pathto f x (a # as) y = (x = Some a \<and> pathto f (f a) as y)"


text \<open>
  \<open>dseg h p x as q y\<close>: the listeners \<open>as\<close> are linked in both directions, entered at
  \<open>x\<close> from \<open>p\<close> and left to \<open>y\<close> from \<open>q\<close>. \<open>linked r xs\<close>: the list of \<open>r\<close> is \<open>xs\<close>, in
  the order of registration, and the listeners whose \<open>isSubscribed\<close> is true are those
  of the list.
\<close>

fun dseg :: "(addr \<Rightarrow> 'c listener) \<Rightarrow> addr option \<Rightarrow> addr option \<Rightarrow> addr list \<Rightarrow>
    addr option \<Rightarrow> addr option \<Rightarrow> bool" where
  "dseg h p x [] q y = (x = y \<and> p = q)"
| "dseg h p x (a # as) q y =
     (x = Some a \<and> prev (h a) = p \<and> dseg h (Some a) (next' (h a)) as q y)"

definition linked :: "'c collection \<Rightarrow> addr list \<Rightarrow> bool" where
  "linked r xs =
     (dseg (heap r) None (first r) xs (last' r) None \<and> sorted_wrt (<) xs \<and>
      (\<forall>l. isSubscribed r l = (l \<in> set xs)) \<and> (\<forall>l \<in> set xs. l < fresh r))"

section \<open>Invariants and measures of the subscriptions\<close>

text \<open>
  The invariant of a subscription in the spec's data model: \<open>unsubscribe\<close> is set iff
  \<open>listeners\<close> is a live collection; and every collection in use was allocated, and
  none is the store's.
\<close>

definition sub_invariant :: "state \<Rightarrow> bool" where
  "sub_invariant s =
     ((\<forall>r. (unsubscribe' (subs s r) = None) = (listeners (subs s r) = nullListeners)) \<and>
      store < cfresh s \<and>
      (\<forall>r c. listeners (subs s r) = Collection c \<longrightarrow> c < cfresh s \<and> c \<noteq> store))"

text \<open>
  Where \<open>trySubscribe\<close> subscribes: the store for a root, the parent's \<open>listeners\<close>
  otherwise. Every \<open>subscribe\<close> on a collection allocates one listener, so \<open>fresh\<close>
  counts the calls of \<open>subscribe\<close> the collection has had.
\<close>

fun upstream :: "subref \<Rightarrow> state \<Rightarrow> listeners_ref" where
  "upstream (Root k) s = Collection store"
| "upstream (Child k p) s = listeners (subs s p)"

fun subscribe_calls :: "listeners_ref \<Rightarrow> state \<Rightarrow> nat" where
  "subscribe_calls nullListeners s = 0"
| "subscribe_calls (Collection c) s = fresh (colls s c)"

text \<open>A call that returned kept the invariant; no call threw.\<close>

fun ok :: "state result \<Rightarrow> bool" where
  "ok None = True"
| "ok (Some (Inl e)) = False"
| "ok (Some (Inr s)) = sub_invariant s"

text \<open>The callbacks that the \<open>notify\<close> loops called, in the order of the calls.\<close>

definition invoked :: "state \<Rightarrow> closure list" where
  "invoked s = map (\<lambda>(c, l). callback (heap (colls s c) l)) (trace s)"

section \<open>Callbacks that unsubscribe or subscribe while \<open>notify\<close> runs\<close>

text \<open>
  \<open>unsubscriber c k ts\<close> is a callback that calls the \<open>unsubscribe\<close> closures of the
  listeners \<open>ts\<close> of the collection \<open>c\<close>, in this order.
\<close>

definition unsubscriber :: "addr \<Rightarrow> nat \<Rightarrow> addr list \<Rightarrow> closure" where
  "unsubscriber c k ts = Listener k (map (\<lambda>t. Call (Unsubscribe c t)) ts)"

text \<open>
  The scenario of the spec: three callbacks are subscribed to a collection, the
  third of which calls the \<open>unsubscribe\<close> of the first handle from its body; the
  second handle is unsubscribed; then \<open>notify\<close> is called.
\<close>

definition scenario :: "stmt list" where
  "scenario =
     [Subscribe 1 (Listener 1 []), Subscribe 1 (Listener 2 []),
      Subscribe 1 (Listener 3 [Call (Unsubscribe 1 0)]),
      Call (Unsubscribe 1 1), Notify 1]"

definition scenario_collection :: "closure collection" where
  "scenario_collection =
     calls [SubscribeCall (unsubscriber 1 1 []), SubscribeCall (unsubscriber 1 2 []),
            SubscribeCall (unsubscriber 1 3 [0]), UnsubscribeCall 1] createListenerCollection"





text \<open>
  The state of the scenario with a root \<open>P\<close> and its child \<open>C\<close>: \<open>markP\<close> (7) is
  registered on \<open>P\<close>, then \<open>markC\<close> (8) on \<open>C\<close>.
\<close>

definition tree_state :: state where
  "tree_state =
     (case run 0 [SetOnStateChange (Root 0) (Some (NotifyNestedSubs (Root 0))),
                  SetOnStateChange (Child 1 (Root 0)) (Some (NotifyNestedSubs (Child 1 (Root 0)))),
                  AddNestedSub (Root 0) (Listener 7 []),
                  AddNestedSub (Child 1 (Root 0)) (Listener 8 [])] init_state of
        Some (Inr s) \<Rightarrow> s
      | _ \<Rightarrow> init_state)"

text \<open>
  \<open>nexts r\<close> is the field \<open>next\<close> of the listeners of \<open>r\<close>. \<open>ahead r a L Q\<close>: while the
  callback of \<open>a\<close> runs, the loop of \<open>notify\<close> will follow \<open>Q\<close>, which starts at \<open>a\<close>,
  is in the order of registration, and holds every listener of the list \<open>L\<close> that
  was registered after \<open>a\<close>.
\<close>

definition nexts :: "'c collection \<Rightarrow> addr \<Rightarrow> addr option" where
  "nexts r a = next' (heap r a)"

definition ahead :: "'c collection \<Rightarrow> addr \<Rightarrow> addr list \<Rightarrow> addr list \<Rightarrow> bool" where
  "ahead r a L Q =
     (pathto (nexts r) (Some a) Q None \<and> sorted_wrt (<) Q \<and>
      (\<forall>l \<in> set L. a < l \<longrightarrow> l \<in> set Q))"

section \<open>The list of a collection\<close>

lemma pathto_append:
  "pathto f x (as @ bs) y = (\<exists>z. pathto f x as z \<and> pathto f z bs y)"
  by (induction as arbitrary: x) auto

lemma dseg_append:
  "dseg h p x (as @ bs) q y = (\<exists>m z. dseg h p x as m z \<and> dseg h m z bs q y)"
  by (induction as arbitrary: p x) auto

lemma dseg_upd_other:
  "a \<notin> set xs \<Longrightarrow> dseg (h(a := v)) p x xs q y = dseg h p x xs q y"
  by (induction xs arbitrary: p x) auto

lemma dseg_last:
  "dseg h p x xs q y \<Longrightarrow> q = (if xs = [] then p else Some (last xs))"
  by (induction xs arbitrary: p x) auto

lemma dseg_None: "dseg h p None xs q y \<Longrightarrow> xs = []"
  by (cases xs) auto

lemma dseg_set_prev_hd:
  "dseg h p x (n # bs) q y \<Longrightarrow> n \<notin> set bs \<Longrightarrow>
   dseg (h(n := (h n)\<lparr>prev := m\<rparr>)) m x (n # bs) q y"
  by (simp add: dseg_upd_other)

lemma dseg_set_next_last:
  "dseg h p x (as @ [a]) q y \<Longrightarrow> a \<notin> set as \<Longrightarrow>
   dseg (h(a := (h a)\<lparr>next' := z\<rparr>)) p x (as @ [a]) q z"
  by (auto simp: dseg_append dseg_upd_other)

lemma dseg_next_path: "dseg h p x xs q y \<Longrightarrow> pathto (\<lambda>a. next' (h a)) x xs y"
  by (induction xs arbitrary: p x) auto


lemma get_loop_path:
  "pathto (\<lambda>a. next' (h a)) x xs None \<Longrightarrow> get_loop h x acc = Some (acc @ xs)"
proof (induction xs arbitrary: x acc)
  case Nil
  then show ?case by (simp add: get_loop.simps)
next
  case (Cons a as)
  then show ?case by (subst get_loop.simps) simp
qed

lemma linked_get: "linked r xs \<Longrightarrow> get r = Some xs"
proof -
  assume "linked r xs"
  then have "pathto (\<lambda>a. next' (heap r a)) (first r) xs None"
    by (auto simp: linked_def dest: dseg_next_path)
  then show ?thesis
    using get_loop_path [of "heap r" "first r" xs "[]"] by (simp add: get_def)
qed

lemma linked_create: "linked createListenerCollection []"
  by (simp add: linked_def createListenerCollection_def)

lemma linked_subscribe:
  assumes "linked r xs"
  shows "fst (subscribe cb r) = fresh r"
    and "linked (snd (subscribe cb r)) (xs @ [fresh r])"
    and "fresh (snd (subscribe cb r)) = Suc (fresh r)"
proof -
  show "fst (subscribe cb r) = fresh r" by (simp add: subscribe_def Let_def)
  show "fresh (snd (subscribe cb r)) = Suc (fresh r)"
    by (simp add: subscribe_def Let_def split: option.splits)
  have new: "fresh r \<notin> set xs" and lt: "\<forall>l\<in>set xs. l < fresh r"
    using assms by (auto simp: linked_def)
  have srt: "sorted_wrt (<) (xs @ [fresh r])"
    using assms by (auto simp: linked_def sorted_wrt_append)
  have seg: "dseg (heap r) None (first r) xs (last' r) None"
    using assms by (simp add: linked_def)
  show "linked (snd (subscribe cb r)) (xs @ [fresh r])"
  proof (cases xs rule: rev_cases)
    case Nil
    with seg have "last' r = None" "first r = None" by auto
    with Nil assms show ?thesis
      by (auto simp: linked_def subscribe_def Let_def)
  next
    case (snoc as a)
    with seg have la: "last' r = Some a" using dseg_last [OF seg] by simp
    have a: "a \<notin> set as" "a \<noteq> fresh r" using assms snoc by (auto simp: linked_def sorted_wrt_append)
    let ?h1 = "(heap r)(fresh r := \<lparr>callback = cb, next' = None, prev = Some a\<rparr>)"
    have "dseg ?h1 None (first r) (as @ [a]) (last' r) None"
      using seg new snoc by (simp add: dseg_upd_other)
    then have "dseg (?h1(a := (?h1 a)\<lparr>next' := Some (fresh r)\<rparr>)) None (first r) (as @ [a]) (last' r) (Some (fresh r))"
      using a(1) by (rule dseg_set_next_last)
    then have "dseg (?h1(a := (?h1 a)\<lparr>next' := Some (fresh r)\<rparr>)) None (first r) ((as @ [a]) @ [fresh r]) (Some (fresh r)) None"
      using a la by (subst dseg_append) auto
    with snoc la srt assms show ?thesis
      by (auto simp: linked_def subscribe_def Let_def)
  qed
qed


lemma linked_unsubscribe:
  assumes "linked r xs"
  shows "linked (unsubscribe l r) (removeAll l xs)"
proof (cases "isSubscribed r l \<and> first r \<noteq> None")
  case False
  have "first r = None \<Longrightarrow> xs = []"
    using assms by (auto simp: linked_def dest: dseg_None)
  with False assms have "removeAll l xs = xs" "unsubscribe l r = r"
    by (auto simp: linked_def unsubscribe_def)
  with assms show ?thesis by simp
next
  case True
  then have "l \<in> set xs" using assms by (simp add: linked_def)
  then obtain as bs where xs: "xs = as @ l # bs" by (auto dest: split_list)
  have srt: "sorted_wrt (<) xs" using assms by (simp add: linked_def)
  then have dist: "distinct xs" by (auto intro: strict_sorted_iff [THEN iffD1, THEN conjunct2]  simp: strict_sorted_iff)
  have notin: "l \<notin> set as" "l \<notin> set bs" "set as \<inter> set bs = {}"
    using dist xs by auto
  have rem: "removeAll l xs = as @ bs" using notin xs by simp
  have seg: "dseg (heap r) None (first r) (as @ l # bs) (last' r) None"
    using assms xs by (simp add: linked_def)
  then obtain m where
    sa: "dseg (heap r) None (first r) as m (Some l)" and
    pl: "prev (heap r l) = m" and
    sb: "dseg (heap r) (Some l) (next' (heap r l)) bs (last' r) None"
    by (auto simp: dseg_append)
  have srt': "sorted_wrt (<) (as @ bs)" using srt xs by (auto simp: sorted_wrt_append)
  have flags: "\<forall>k. isSubscribed (unsubscribe l r) k = (k \<in> set (as @ bs))"
    using True assms xs notin
    by (auto simp: unsubscribe_def Let_def linked_def split: option.splits)
  have bound: "\<forall>k \<in> set (as @ bs). k < fresh (unsubscribe l r)"
    using True assms xs
    by (auto simp: unsubscribe_def Let_def linked_def split: option.splits)
  have "dseg (heap (unsubscribe l r)) None (first (unsubscribe l r)) (as @ bs)
          (last' (unsubscribe l r)) None"
  proof (cases bs)
    case Nil
    with sb have nl: "next' (heap r l) = None" and lr: "last' r = Some l" by auto
    show ?thesis
    proof (cases as rule: rev_cases)
      case Nil
      with sa pl have "m = None" by auto
      with Nil \<open>bs = []\<close> True nl pl show ?thesis
        by (auto simp: unsubscribe_def Let_def)
    next
      case (snoc as' p)
      with sa have mp: "m = Some p" using dseg_last [OF sa] by simp
      have p: "p \<notin> set as'" "p \<noteq> l" using dist xs snoc by auto
      have "dseg ((heap r)(p := (heap r p)\<lparr>next' := None\<rparr>)) None (first r) (as' @ [p]) m None"
        using sa snoc p(1) by (auto intro: dseg_set_next_last)
      with snoc \<open>bs = []\<close> True nl pl mp p show ?thesis
        by (auto simp: unsubscribe_def Let_def)
    qed
  next
    case (Cons n bs')
    with sb have nl: "next' (heap r l) = Some n" by auto
    have n: "n \<notin> set bs'" "n \<noteq> l" "n \<notin> set as" using dist xs Cons by auto
    have sb': "dseg ((heap r)(n := (heap r n)\<lparr>prev := m\<rparr>)) m (Some n) (n # bs') (last' r) None"
      using sb Cons nl n(1) dseg_set_prev_hd [of "heap r" "Some l" "Some n" n bs' "last' r" None m]
      by simp
    show ?thesis
    proof (cases as rule: rev_cases)
      case Nil
      with sa pl have "m = None" "first r = Some l" by auto
      with Nil Cons True nl pl sb' n show ?thesis
        by (auto simp: unsubscribe_def Let_def)
    next
      case (snoc as' p)
      with sa have mp: "m = Some p" using dseg_last [OF sa] by simp
      have p: "p \<notin> set as'" "p \<noteq> l" "p \<noteq> n" "p \<notin> set bs'" using dist xs snoc Cons by auto
      let ?h2 = "(heap r)(n := (heap r n)\<lparr>prev := m\<rparr>)"
      have "dseg ?h2 None (first r) (as' @ [p]) m (Some l)"
        using sa snoc n by (simp add: dseg_upd_other)
      then have "dseg (?h2(p := (?h2 p)\<lparr>next' := Some n\<rparr>)) None (first r) (as' @ [p]) m (Some n)"
        using p(1) by (rule dseg_set_next_last)
      moreover have "dseg (?h2(p := (?h2 p)\<lparr>next' := Some n\<rparr>)) m (Some n) (n # bs') (last' r) None"
        using sb' p by (simp add: dseg_upd_other)
      ultimately have "dseg (?h2(p := (?h2 p)\<lparr>next' := Some n\<rparr>)) None (first r)
          ((as' @ [p]) @ n # bs') (last' r) None"
        by (subst dseg_append) blast
      with snoc Cons True nl pl mp p n show ?thesis
        by (auto simp: unsubscribe_def Let_def)
    qed
  qed
  with srt' flags bound rem show ?thesis by (simp add: linked_def)
qed






lemma callback_unsubscribe: "callback (heap (unsubscribe l r) k) = callback (heap r k)"
  by (simp add: unsubscribe_def Let_def split: option.splits)

lemma fresh_unsubscribe: "fresh (unsubscribe l r) = fresh r"
  by (simp add: unsubscribe_def Let_def split: option.splits)

lemma callback_subscribe:
  "callback (heap (snd (subscribe cb r)) k) = (if k = fresh r then cb else callback (heap r k))"
  by (simp add: subscribe_def Let_def split: option.splits)

lemma fresh_subscribe: "fresh (snd (subscribe cb r)) = Suc (fresh r)"
  by (simp add: subscribe_def Let_def split: option.splits)

lemma linked_calls:
  "linked r xs \<Longrightarrow> closures_returned (fresh r) cs \<Longrightarrow>
   linked (calls cs r)
     (filter (\<lambda>l. UnsubscribeCall l \<notin> set cs) (xs @ [fresh r ..< fresh r + length (registered cs)]))"
proof (induction cs r arbitrary: xs rule: calls.induct)
  case (1 r)
  then show ?case by simp
next
  case (2 cb cs r)
  have "linked (snd (subscribe cb r)) (xs @ [fresh r])"
    using "2.prems"(1) by (rule linked_subscribe)
  moreover have "closures_returned (fresh (snd (subscribe cb r))) cs"
    using "2.prems"(2) by (simp add: fresh_subscribe)
  ultimately have "linked (calls cs (snd (subscribe cb r)))
     (filter (\<lambda>l. UnsubscribeCall l \<notin> set cs)
        ((xs @ [fresh r]) @ [Suc (fresh r) ..< Suc (fresh r) + length (registered cs)]))"
    using "2.IH" [of "xs @ [fresh r]"] by (simp add: fresh_subscribe)
  moreover have "[fresh r ..< fresh r + length (registered (SubscribeCall cb # cs))] =
      fresh r # [Suc (fresh r) ..< Suc (fresh r) + length (registered cs)]"
    by (simp add: upt_conv_Cons del: upt_Suc)
  ultimately show ?case by simp
next
  case (3 l cs r)
  have lt: "l < fresh r" and rest: "closures_returned (fresh r) cs"
    using "3.prems"(2) by simp_all
  have "linked (unsubscribe l r) (removeAll l xs)"
    using "3.prems"(1) by (rule linked_unsubscribe)
  then have "linked (calls cs (unsubscribe l r))
     (filter (\<lambda>k. UnsubscribeCall k \<notin> set cs)
        (removeAll l xs @ [fresh r ..< fresh r + length (registered cs)]))"
    using "3.IH" [of "removeAll l xs"] rest by (simp add: fresh_unsubscribe)
  moreover have "filter (\<lambda>k. UnsubscribeCall k \<notin> set cs) (removeAll l xs) =
      filter (\<lambda>k. k \<noteq> l \<and> UnsubscribeCall k \<notin> set cs) xs"
    by (induction xs) auto
  moreover have "filter (\<lambda>k. UnsubscribeCall k \<notin> set cs)
        [fresh r ..< fresh r + length (registered cs)] =
      filter (\<lambda>k. k \<noteq> l \<and> UnsubscribeCall k \<notin> set cs)
        [fresh r ..< fresh r + length (registered cs)]"
    using lt by (intro filter_cong refl) auto
  ultimately show ?case by simp
qed

lemma callback_calls:
  "callback (heap (calls cs r) k) =
     (if fresh r \<le> k \<and> k < fresh r + length (registered cs)
      then registered cs ! (k - fresh r) else callback (heap r k))"
proof (induction cs r rule: calls.induct)
  case (1 r)
  then show ?case by auto
next
  case (2 cb cs r)
  then show ?case
    by (auto simp: callback_subscribe fresh_subscribe nth_Cons')
next
  case (3 l cs r)
  then show ?case by (simp add: callback_unsubscribe fresh_unsubscribe)
qed

text \<open>
  C3. After any sequence of \<open>subscribe\<close> and \<open>unsubscribe\<close> calls on a new collection,
  \<open>get\<close> returns exactly the handles whose \<open>unsubscribe\<close> closure was not called, in
  the order of their registration; the handle registered as number \<open>l\<close> carries the
  callback that was registered as number \<open>l\<close>.
\<close>

theorem get_after_calls:
  assumes "closures_returned 0 cs"
  shows "get (calls cs createListenerCollection) =
           Some (filter (\<lambda>l. UnsubscribeCall l \<notin> set cs) [0 ..< length (registered cs)]) \<and>
         (\<forall>l < length (registered cs).
            callback (heap (calls cs createListenerCollection) l) = registered cs ! l)"
proof -
  have "linked (calls cs (createListenerCollection :: 'a collection))
     (filter (\<lambda>l. UnsubscribeCall l \<notin> set cs) [0 ..< length (registered cs)])"
    using linked_calls [OF linked_create, of cs] assms
    by (simp add: createListenerCollection_def)
  then show ?thesis
    by (simp add: linked_get callback_calls createListenerCollection_def)
qed

theorem get_after_calls_witness:
  "closures_returned 0 [SubscribeCall (10::nat), SubscribeCall 20, UnsubscribeCall 0,
      SubscribeCall 30, UnsubscribeCall 0] \<and>
   get (calls [SubscribeCall (10::nat), SubscribeCall 20, UnsubscribeCall 0,
      SubscribeCall 30, UnsubscribeCall 0] createListenerCollection) = Some [1, 2]"
  using get_after_calls [of "[SubscribeCall (10::nat), SubscribeCall 20, UnsubscribeCall 0,
      SubscribeCall 30, UnsubscribeCall 0]"]
  by (simp add: upt_rec)




section \<open>Unsubscribing twice, and unsubscribing after \<open>clear\<close>\<close>



text \<open>
  C4, as stated, fails: after \<open>clear\<close> and a further \<open>subscribe\<close> the guard
  \<open>first === null\<close> no longer holds, and the closure of a listener of the cleared list
  unlinks its stale listener, which here drops the newly subscribed one.
\<close>

theorem stale_unsubscribe_after_clear_counterexample:
  "get (snd (subscribe () (clear (snd (subscribe () createListenerCollection))))) = Some [1] \<and>
   get (unsubscribe 0 (snd (subscribe () (clear (snd (subscribe () createListenerCollection))))))
     = Some []"
  by (simp add: get_def subscribe_def unsubscribe_def clear_def createListenerCollection_def
      Let_def get_loop.simps)

text \<open>
  C4, amended. After \<open>clear\<close>, and for as long as nothing is subscribed again, every
  call of an \<open>unsubscribe\<close> closure, in any number and order, leaves the collection as
  \<open>clear\<close> left it.
\<close>

theorem unsubscribe_after_clear_noop:
  "fold unsubscribe ls (clear r) = clear r"
  by (induction ls) (simp_all add: unsubscribe_def clear_def)

theorem unsubscribe_after_clear_noop_witness:
  "fold unsubscribe [0, 1, 0]
     (clear (snd (subscribe () (snd (subscribe () createListenerCollection))))) =
   clear (snd (subscribe () (snd (subscribe () createListenerCollection)))) \<and>
   isSubscribed (snd (subscribe () (snd (subscribe () createListenerCollection)))) 0 \<and>
   get (clear (snd (subscribe () (snd (subscribe () createListenerCollection))))) = Some []"
  using unsubscribe_after_clear_noop
    [of "[0, 1, 0]" "snd (subscribe () (snd (subscribe () createListenerCollection)))"]
  by (simp add: get_def subscribe_def clear_def createListenerCollection_def
      Let_def get_loop.simps)

section \<open>Subscriptions: attaching and detaching\<close>

lemma sub_invariant_init: "sub_invariant init_state"
  by (simp add: sub_invariant_def init_state_def createSubscription_def)

lemma subs_with_coll [simp]: "subs (with_coll c f s) = subs s"
  and cfresh_with_coll [simp]: "cfresh (with_coll c f s) = cfresh s"
  and colls_with_coll: "colls (with_coll c f s) = (colls s)(c := f (colls s c))"
  and trace_with_coll [simp]: "trace (with_coll c f s) = trace s"
  by (simp_all add: with_coll_def)

lemma sub_invariant_cong:
  "(\<And>r. unsubscribe' (subs s' r) = unsubscribe' (subs s r)) \<Longrightarrow>
   (\<And>r. listeners (subs s' r) = listeners (subs s r)) \<Longrightarrow>
   cfresh s' = cfresh s \<Longrightarrow> sub_invariant s' = sub_invariant s"
  by (simp add: sub_invariant_def)

lemma sub_invariant_with_coll [simp]: "sub_invariant (with_coll c f s) = sub_invariant s"
  by (simp add: sub_invariant_def)

lemma sub_invariant_trace [simp]: "sub_invariant (s\<lparr>trace := t\<rparr>) = sub_invariant s"
  by (simp add: sub_invariant_def)

lemma sub_invariant_onStateChange [simp]:
  "sub_invariant (s\<lparr>subs := (subs s)(r := (subs s r)\<lparr>onStateChange := f\<rparr>)\<rparr>) = sub_invariant s"
  by (rule sub_invariant_cong) simp_all

lemma inv_detached:
  "sub_invariant s \<Longrightarrow> unsubscribe' (subs s r) = None \<Longrightarrow> listeners (subs s r) = nullListeners"
  by (simp add: sub_invariant_def)

lemma inv_attached:
  assumes "sub_invariant s" "unsubscribe' (subs s r) = Some u"
  shows "\<exists>c. listeners (subs s r) = Collection c \<and> c < cfresh s \<and> c \<noteq> store"
proof (cases "listeners (subs s r)")
  case nullListeners
  with assms show ?thesis by (metis option.distinct(1) sub_invariant_def)
next
  case (Collection c)
  with assms show ?thesis by (simp add: sub_invariant_def)
qed

lemma coll_subscribe_simps [simp]:
  "subs (snd (coll_subscribe c f s)) = subs s"
  "cfresh (snd (coll_subscribe c f s)) = cfresh s"
  "trace (snd (coll_subscribe c f s)) = trace s"
  "sub_invariant (snd (coll_subscribe c f s)) = sub_invariant s"
  "fst (coll_subscribe c f s) = (c, fresh (colls s c))"
  by (simp_all add: coll_subscribe_def subscribe_def Let_def)

lemma colls_coll_subscribe:
  "colls (snd (coll_subscribe c f s)) c' =
     (if c' = c then snd (subscribe f (colls s c)) else colls s c')"
  by (simp add: coll_subscribe_def colls_with_coll)

lemma subscribe_new:
  "fresh (snd (subscribe f r)) = Suc (fresh r)"
  "last' (snd (subscribe f r)) = Some (fresh r)"
  "callback (heap (snd (subscribe f r)) (fresh r)) = f"
  "isSubscribed (snd (subscribe f r)) (fresh r)"
  by (simp_all add: subscribe_def Let_def split: option.splits)

text \<open>What \<open>attach\<close> does to a state.\<close>

lemma attach_simps:
  "subs (attach r u s) =
     (subs s)(r := (subs s r)\<lparr>unsubscribe' := Some u, listeners := Collection (cfresh s)\<rparr>)"
  "cfresh (attach r u s) = Suc (cfresh s)"
  "colls (attach r u s) = (colls s)(cfresh s := createListenerCollection)"
  "trace (attach r u s) = trace s"
  by (simp_all add: attach_def new_collection_def Let_def fun_eq_iff)

lemma sub_invariant_attach: "sub_invariant s \<Longrightarrow> sub_invariant (attach r u s)"
  by (auto simp: sub_invariant_def attach_simps less_Suc_eq)

lemma trySubscribe_addNestedSub_ok:
  "sub_invariant s \<Longrightarrow>
     \<exists>s'. trySubscribe r s = Inr s' \<and> sub_invariant s' \<and>
          (\<exists>c. listeners (subs s' r) = Collection c \<and>
               fresh (colls s' c) = subscribe_calls (listeners (subs s r)) s) \<and>
          unsubscribe' (subs s' r) \<noteq> None \<and>
          (unsubscribe' (subs s r) \<noteq> None \<longrightarrow> s' = s) \<and>
          (unsubscribe' (subs s r) = None \<longrightarrow>
             subscribe_calls (upstream r s') s' = Suc (subscribe_calls (upstream r s) s))"
  "sub_invariant s \<Longrightarrow>
     \<exists>c s'. addNestedSub r f s = Inr ((c, subscribe_calls (listeners (subs s r)) s), s') \<and>
          sub_invariant s' \<and> listeners (subs s' r) = Collection c \<and>
          fresh (colls s' c) = Suc (subscribe_calls (listeners (subs s r)) s) \<and>
          last' (colls s' c) = Some (subscribe_calls (listeners (subs s r)) s) \<and>
          callback (heap (colls s' c) (subscribe_calls (listeners (subs s r)) s)) = f \<and>
          isSubscribed (colls s' c) (subscribe_calls (listeners (subs s r)) s)"
proof (induction r s and r f s rule: trySubscribe_addNestedSub.induct)
  case (1 k s)
  show ?case
  proof (cases "unsubscribe' (subs s (Root k))")
    case None
    with 1 have nl: "listeners (subs s (Root k)) = nullListeners"
      by (simp add: inv_detached)
    from 1 have "sub_invariant (snd (coll_subscribe store (HandleChangeWrapper (Root k)) s))"
      by simp
    then have "sub_invariant (attach (Root k) (fst (coll_subscribe store (HandleChangeWrapper (Root k)) s))
                       (snd (coll_subscribe store (HandleChangeWrapper (Root k)) s)))"
      by (rule sub_invariant_attach)
    moreover have "store \<noteq> cfresh s" using 1 by (auto simp: sub_invariant_def)
    ultimately show ?thesis using None nl
      by (simp add: attach_simps createListenerCollection_def colls_coll_subscribe
          subscribe_new)
  next
    case (Some u)
    with 1 obtain c where "listeners (subs s (Root k)) = Collection c"
      using inv_attached by blast
    with Some 1 show ?thesis by simp
  qed
next
  case (2 k p s)
  show ?case
  proof (cases "unsubscribe' (subs s (Child k p))")
    case None
    with 2 have nl: "listeners (subs s (Child k p)) = nullListeners"
      by (simp add: inv_detached)
    from "2.IH" [OF None "2.prems"] obtain c s1 where
      a: "addNestedSub p (HandleChangeWrapper (Child k p)) s =
            Inr ((c, subscribe_calls (listeners (subs s p)) s), s1)"
      and i: "sub_invariant s1"
      and lp: "listeners (subs s1 p) = Collection c"
      and fp: "fresh (colls s1 c) = Suc (subscribe_calls (listeners (subs s p)) s)" by blast
    from i have "sub_invariant (attach (Child k p) (c, subscribe_calls (listeners (subs s p)) s) s1)"
      by (rule sub_invariant_attach)
    moreover have "c \<noteq> cfresh s1" using i lp by (auto simp: sub_invariant_def)
    moreover have "p \<noteq> Child k p" by (induction p) auto
    ultimately show ?thesis using None nl a lp fp
      by (simp add: attach_simps createListenerCollection_def)
  next
    case (Some u)
    with 2 obtain c where "listeners (subs s (Child k p)) = Collection c"
      using inv_attached by blast
    with Some 2 show ?thesis by simp
  qed
next
  case (3 r listener s)
  from "3.IH" [OF "3.prems"] obtain s1 c where
    t: "trySubscribe r s = Inr s1" and i: "sub_invariant s1"
    and l: "listeners (subs s1 r) = Collection c"
    and f: "fresh (colls s1 c) = subscribe_calls (listeners (subs s r)) s" by blast
  with i show ?case
    using subscribe_new [of listener "colls s1 c"]
    by (simp add: colls_coll_subscribe prod_eq_iff)
qed

lemma tryUnsubscribe_ok:
  assumes "sub_invariant s"
  shows "\<exists>s'. tryUnsubscribe r s = Inr s' \<and> sub_invariant s' \<and>
           listeners (subs s' r) = nullListeners \<and> unsubscribe' (subs s' r) = None"
proof (cases "unsubscribe' (subs s r)")
  case None
  with assms show ?thesis by (simp add: tryUnsubscribe_def inv_detached)
next
  case (Some u)
  with assms obtain c where c: "listeners (subs s r) = Collection c"
    using inv_attached by blast
  have "sub_invariant (s\<lparr>subs := (subs s)(r := (subs s r)
          \<lparr>unsubscribe' := None, listeners := nullListeners\<rparr>)\<rparr>)"
    using assms by (auto simp: sub_invariant_def)
  with Some c show ?thesis
    by (cases u) (simp add: tryUnsubscribe_def Let_def with_coll_def sub_invariant_def)
qed


lemma ok_seq: "ok m \<Longrightarrow> (\<And>x. sub_invariant x \<Longrightarrow> ok (k x)) \<Longrightarrow> ok (seq m k)"
  by (cases m rule: ok.cases) (simp_all add: seq_def)

lemma interpreter_ok:
  "sub_invariant s \<Longrightarrow> ok (exec n f s)"
  "sub_invariant s \<Longrightarrow> ok (notify n c s)"
  "sub_invariant s \<Longrightarrow> ok (walk n c x s)"
  "sub_invariant s \<Longrightarrow> ok (run n xs s)"
  "sub_invariant s \<Longrightarrow> ok (step n st s)"
proof (induction n f s and n c s and n c x s and n xs s and n st s
    rule: exec_notify_walk_run_step.induct)
  case (3 n r s)
  then show ?case by (cases "onStateChange (subs s r)") simp_all
next
  case (4 n r s)
  then show ?case by (cases "listeners (subs s r)") simp_all
next
  case (6 n c s)
  then show ?case by (simp add: batch_def)
next
  case (9 n c l s)
  show ?case
    unfolding walk.simps
    by (rule ok_seq) (simp_all add: "9.IH" "9.prems")
next
  case (11 n x xs s)
  show ?case
    unfolding run.simps
    by (rule ok_seq) (simp_all add: "11.IH" "11.prems")
next
  case (16 n r f s)
  then show ?case
    using trySubscribe_addNestedSub_ok(2) [of s r f] by auto
next
  case (17 n r s)
  then show ?case
    using trySubscribe_addNestedSub_ok(1) [of s r] by auto
next
  case (18 n r s)
  then show ?case
    using tryUnsubscribe_ok [of s r] by auto
qed simp_all


lemmas eval_defs = init_state_def seq_def batch_def store_def coll_subscribe_def
     with_coll_def subscribe_def unsubscribe_def clear_def attach_def new_collection_def createSubscription_def
     createListenerCollection_def tryUnsubscribe_def Let_def invoked_def getListeners_def isSubscribed'_def

text \<open>
  C6. In a state that satisfies the invariant, \<open>trySubscribe\<close> returns, and a second
  \<open>trySubscribe\<close> right after it changes nothing, so it subscribes nowhere; the first
  one changes nothing if the subscription was attached, and otherwise the upstream
  (the store, or the parent's collection) has had exactly one more call of
  \<open>subscribe\<close>. \<open>tryUnsubscribe\<close> on a subscription that is not attached returns the
  state unchanged.
\<close>

theorem trySubscribe_tryUnsubscribe_idempotent:
  assumes "sub_invariant s"
  shows "(\<exists>s1. trySubscribe r s = Inr s1 \<and> trySubscribe r s1 = Inr s1 \<and>
            (isSubscribed' r s \<longrightarrow> s1 = s) \<and>
            (\<not> isSubscribed' r s \<longrightarrow>
               subscribe_calls (upstream r s1) s1 = Suc (subscribe_calls (upstream r s) s))) \<and>
         (\<not> isSubscribed' r s \<longrightarrow> tryUnsubscribe r s = Inr s)"
proof -
  from trySubscribe_addNestedSub_ok(1) [OF assms, of r] obtain s1 where
    all: "trySubscribe r s = Inr s1 \<and> sub_invariant s1 \<and>
          (\<exists>c. listeners (subs s1 r) = Collection c \<and>
               fresh (colls s1 c) = subscribe_calls (listeners (subs s r)) s) \<and>
          unsubscribe' (subs s1 r) \<noteq> None \<and>
          (unsubscribe' (subs s r) \<noteq> None \<longrightarrow> s1 = s) \<and>
          (unsubscribe' (subs s r) = None \<longrightarrow>
             subscribe_calls (upstream r s1) s1 = Suc (subscribe_calls (upstream r s) s))" ..
  from all have t: "trySubscribe r s = Inr s1" by (elim conjE)
  from all have a: "unsubscribe' (subs s1 r) \<noteq> None" by (elim conjE)
  from all have u: "unsubscribe' (subs s r) \<noteq> None \<longrightarrow> s1 = s" by (elim conjE)
  from all have n: "unsubscribe' (subs s r) = None \<longrightarrow>
             subscribe_calls (upstream r s1) s1 = Suc (subscribe_calls (upstream r s) s)"
    by (elim conjE)
  from a obtain v where v: "unsubscribe' (subs s1 r) = Some v" by auto
  then have again: "trySubscribe r s1 = Inr s1" by (cases r) simp_all
  have same: "s1 = s" if "isSubscribed' r s"
    using that u by (cases "unsubscribe' (subs s r)") (simp_all add: isSubscribed'_def)
  have once: "subscribe_calls (upstream r s1) s1 = Suc (subscribe_calls (upstream r s) s)"
    if "\<not> isSubscribed' r s"
    using that n by (cases "unsubscribe' (subs s r)") (simp_all add: isSubscribed'_def)
  have noop: "tryUnsubscribe r s = Inr s" if "\<not> isSubscribed' r s"
    using that by (cases "unsubscribe' (subs s r)") (simp_all add: isSubscribed'_def tryUnsubscribe_def)
  have "\<exists>s1. trySubscribe r s = Inr s1 \<and> trySubscribe r s1 = Inr s1 \<and>
            (isSubscribed' r s \<longrightarrow> s1 = s) \<and>
            (\<not> isSubscribed' r s \<longrightarrow>
               subscribe_calls (upstream r s1) s1 = Suc (subscribe_calls (upstream r s) s))"
  proof (intro exI [of _ s1] conjI impI)
    show "trySubscribe r s = Inr s1" by (rule t)
    show "trySubscribe r s1 = Inr s1" by (rule again)
    show "s1 = s" if "isSubscribed' r s" using that by (rule same)
    show "subscribe_calls (upstream r s1) s1 = Suc (subscribe_calls (upstream r s) s)"
      if "\<not> isSubscribed' r s" using that by (rule once)
  qed
  moreover have "\<not> isSubscribed' r s \<longrightarrow> tryUnsubscribe r s = Inr s"
    using noop by (rule impI)
  ultimately show ?thesis by (rule conjI)
qed

theorem trySubscribe_tryUnsubscribe_idempotent_witness:
  "sub_invariant init_state \<and> \<not> isSubscribed' (Child 1 (Root 0)) init_state \<and>
   (\<exists>s1. trySubscribe (Child 1 (Root 0)) init_state = Inr s1 \<and>
         trySubscribe (Child 1 (Root 0)) s1 = Inr s1 \<and>
         subscribe_calls (upstream (Child 1 (Root 0)) s1) s1 = Suc 0) \<and>
   tryUnsubscribe (Child 1 (Root 0)) init_state = Inr init_state"
proof -
  have a: "\<not> isSubscribed' (Child 1 (Root 0)) init_state"
    by (simp add: isSubscribed'_def init_state_def createSubscription_def)
  have b: "subscribe_calls (upstream (Child 1 (Root 0)) init_state) init_state = 0"
    by (simp add: init_state_def createSubscription_def)
  from trySubscribe_tryUnsubscribe_idempotent [OF sub_invariant_init, of "Child 1 (Root 0)"] a
  obtain s1 where
    t: "trySubscribe (Child 1 (Root 0)) init_state = Inr s1 \<and>
        trySubscribe (Child 1 (Root 0)) s1 = Inr s1"
    and c: "subscribe_calls (upstream (Child 1 (Root 0)) s1) s1 =
           Suc (subscribe_calls (upstream (Child 1 (Root 0)) init_state) init_state)"
    and u: "tryUnsubscribe (Child 1 (Root 0)) init_state = Inr init_state"
    by blast
  from c have "subscribe_calls (upstream (Child 1 (Root 0)) s1) s1 = Suc 0"
    by (simp only: b)
  with t u a sub_invariant_init show ?thesis by blast
qed

text \<open>
  C9. \<open>tryUnsubscribe\<close> on an attached subscription returns, and leaves \<open>listeners\<close>
  the sentinel \<open>nullListeners\<close>: a later \<open>notifyNestedSubs\<close> returns with the state
  (and so the trace of invoked callbacks) unchanged, and \<open>getListeners().get()\<close> is the
  empty list.
\<close>

theorem tryUnsubscribe_installs_sentinel:
  assumes "sub_invariant s" and "isSubscribed' r s"
  shows "\<exists>s'. tryUnsubscribe r s = Inr s' \<and> getListeners r s' = nullListeners \<and>
           \<not> isSubscribed' r s' \<and>
           (\<forall>n. exec (Suc n) (NotifyNestedSubs r) s' = Some (Inr s')) \<and>
           ref_get (getListeners r s') s' = Some []"
proof -
  from tryUnsubscribe_ok [OF assms(1), of r] obtain s' where
    "tryUnsubscribe r s = Inr s'" "listeners (subs s' r) = nullListeners"
    "unsubscribe' (subs s' r) = None" by blast
  then show ?thesis by (simp add: getListeners_def isSubscribed'_def)
qed

theorem tryUnsubscribe_installs_sentinel_witness:
  "(\<exists>s. trySubscribe (Root 0) init_state = Inr s \<and> sub_invariant s \<and> isSubscribed' (Root 0) s \<and>
     (\<exists>s'. tryUnsubscribe (Root 0) s = Inr s' \<and> getListeners (Root 0) s' = nullListeners \<and>
           exec 1 (NotifyNestedSubs (Root 0)) s' = Some (Inr s') \<and>
           ref_get (getListeners (Root 0) s') s' = Some []))"
proof -
  obtain s where s: "trySubscribe (Root 0) init_state = Inr s" "sub_invariant s"
    "unsubscribe' (subs s (Root 0)) \<noteq> None"
    using trySubscribe_addNestedSub_ok(1) [OF sub_invariant_init, of "Root 0"] by blast
  then have "isSubscribed' (Root 0) s" by (simp add: isSubscribed'_def)
  with s show ?thesis
    using tryUnsubscribe_installs_sentinel [of s "Root 0"] by (metis One_nat_def)
qed

text \<open>
  C8. Whatever the using code has done from the start, inside callbacks too, no call
  has thrown the \<open>TypeError\<close> of the sentinel's missing \<open>subscribe\<close> (or \<open>clear\<close>);
  and in every state so reached, \<open>addNestedSub\<close> returns the \<open>unsubscribe\<close> closure
  of a listener that carries the callback and is the last of the live collection of
  the subscription.
\<close>

theorem addNestedSub_never_reaches_sentinel:
  "run n script init_state \<noteq> Some (Inl TypeError) \<and>
   (\<forall>s. run n script init_state = Some (Inr s) \<longrightarrow>
      (\<exists>c l s'. addNestedSub r f s = Inr ((c, l), s') \<and> getListeners r s' = Collection c \<and>
         last' (colls s' c) = Some l \<and> callback (heap (colls s' c) l) = f \<and>
         isSubscribed (colls s' c) l))"
proof -
  have k: "ok (run n script init_state)"
    using sub_invariant_init by (rule interpreter_ok)
  then have "run n script init_state \<noteq> Some (Inl TypeError)" by auto
  moreover have "\<exists>c l s'. addNestedSub r f s = Inr ((c, l), s') \<and> getListeners r s' = Collection c \<and>
         last' (colls s' c) = Some l \<and> callback (heap (colls s' c) l) = f \<and>
         isSubscribed (colls s' c) l" if "run n script init_state = Some (Inr s)" for s
  proof -
    from k that have "sub_invariant s" by simp
    from trySubscribe_addNestedSub_ok(2) [OF this, of r f] show ?thesis
      unfolding getListeners_def by blast
  qed
  ultimately show ?thesis by blast
qed

theorem addNestedSub_never_reaches_sentinel_witness:
  "run 1 [AddNestedSub (Root 0) (Listener 1 []), TryUnsubscribe (Root 0)] init_state
     \<noteq> Some (Inl TypeError) \<and>
   (\<exists>s. run 1 [AddNestedSub (Root 0) (Listener 1 []), TryUnsubscribe (Root 0)] init_state
          = Some (Inr s) \<and> getListeners (Root 0) s = nullListeners \<and>
      (\<exists>c l s'. addNestedSub (Root 0) (Listener 2 []) s = Inr ((c, l), s') \<and>
         getListeners (Root 0) s' = Collection c \<and> last' (colls s' c) = Some l))"
proof -
  have "\<exists>s. run 1 [AddNestedSub (Root 0) (Listener 1 []), TryUnsubscribe (Root 0)] init_state
          = Some (Inr s) \<and> getListeners (Root 0) s = nullListeners"
    by (simp add: eval_defs)
  then show ?thesis
    using addNestedSub_never_reaches_sentinel
      [of 1 "[AddNestedSub (Root 0) (Listener 1 []), TryUnsubscribe (Root 0)]" "Root 0" "Listener 2 []"]
    by blast
qed

text \<open>
  C2, as stated, fails: when the child \<open>C\<close> is attached to \<open>P\<close> before \<open>markP\<close> is
  registered on \<open>P\<close>, the handler of \<open>C\<close> precedes \<open>markP\<close> in the list of \<open>P\<close>, and
  a change of the store invokes \<open>markC\<close> (8) before \<open>markP\<close> (7).
\<close>

theorem descendant_first_counterexample:
  "\<exists>s. run 10 [SetOnStateChange (Root 0) (Some (NotifyNestedSubs (Root 0))),
              SetOnStateChange (Child 1 (Root 0)) (Some (NotifyNestedSubs (Child 1 (Root 0)))),
              AddNestedSub (Child 1 (Root 0)) (Listener 8 []),
              AddNestedSub (Root 0) (Listener 7 []),
              Notify store] init_state = Some (Inr s) \<and>
       invoked s = [HandleChangeWrapper (Root 0), HandleChangeWrapper (Child 1 (Root 0)),
                    Listener 8 [], Listener 7 []]"
  by (simp add: eval_defs eval_nat_numeral)

lemma walk_terminals:
  "pathto (nexts (colls s c)) x P y \<Longrightarrow>
   \<forall>l \<in> set P. \<exists>k. callback (heap (colls s c) l) = Listener k [] \<Longrightarrow>
   length P < n \<Longrightarrow>
   walk n c x s = walk (n - length P) c y (s\<lparr>trace := trace s @ map (Pair c) P\<rparr>)"
proof (induction P arbitrary: x s n)
  case Nil
  then show ?case by simp
next
  case (Cons a P)
  from Cons.prems(3) obtain m where n: "n = Suc (Suc m)" by (cases n; cases "n - 1") auto
  from Cons.prems(1) have x: "x = Some a"
    and p: "pathto (nexts (colls s c)) (nexts (colls s c) a) P y" by simp_all
  from Cons.prems(2) obtain k where k: "callback (heap (colls s c) a) = Listener k []" by auto
  let ?s0 = "s\<lparr>trace := trace s @ [(c, a)]\<rparr>"
  have "walk n c x s = walk (Suc m) c (nexts (colls s c) a) ?s0"
    by (simp add: n x k seq_def nexts_def)
  also have "\<dots> = walk (Suc m - length P) c y (?s0\<lparr>trace := trace ?s0 @ map (Pair c) P\<rparr>)"
    using Cons.IH [of ?s0 "nexts (colls s c) a" "Suc m"] p Cons.prems(2,3) n by simp
  finally show ?case by (simp add: n)
qed

lemma handler_walk:
  assumes "listeners (subs s P) = Collection cP"
    and "onStateChange (subs s P) = Some (NotifyNestedSubs P)"
    and "listeners (subs s C) = Collection cC"
    and "onStateChange (subs s C) = Some (NotifyNestedSubs C)"
    and "cC \<noteq> cP"
    and "pathto (nexts (colls s cP)) (first (colls s cP)) (LA @ hC # LB) None"
    and "pathto (nexts (colls s cC)) (first (colls s cC)) LC None"
    and "callback (heap (colls s cP) hC) = HandleChangeWrapper C"
    and "\<forall>l \<in> set (LA @ LB). \<exists>k. callback (heap (colls s cP) l) = Listener k []"
    and "\<forall>l \<in> set LC. \<exists>k. callback (heap (colls s cC) l) = Listener k []"
    and "length LA + length LB + length LC + 7 \<le> n"
  shows "exec n (HandleChangeWrapper P) s =
           Some (Inr (s\<lparr>trace := trace s @ map (Pair cP) LA @ [(cP, hC)] @
                              map (Pair cC) LC @ map (Pair cP) LB\<rparr>))"
proof -
  from assms(11) obtain m where n: "n = Suc (Suc m)" by (cases n; cases "n - 1") auto
  from assms(6) have pa: "pathto (nexts (colls s cP)) (first (colls s cP)) LA (Some hC)"
    and pb: "pathto (nexts (colls s cP)) (nexts (colls s cP) hC) LB None"
    by (auto simp: pathto_append)
  let ?sA = "s\<lparr>trace := trace s @ map (Pair cP) LA\<rparr>"
  let ?sh = "s\<lparr>trace := trace s @ map (Pair cP) LA @ [(cP, hC)]\<rparr>"
  let ?sC = "s\<lparr>trace := trace s @ map (Pair cP) LA @ [(cP, hC)] @ map (Pair cC) LC\<rparr>"
  let ?sB = "s\<lparr>trace := trace s @ map (Pair cP) LA @ [(cP, hC)] @ map (Pair cC) LC @
                map (Pair cP) LB\<rparr>"
  obtain m1 where m1: "m - length LA = Suc (Suc (Suc m1))"
    using assms(11) n by (cases "m - length LA"; cases "m - length LA - 1";
      cases "m - length LA - 2") auto
  have inner: "exec (Suc (Suc m1)) (HandleChangeWrapper C) ?sh = Some (Inr ?sC)"
  proof -
    have "walk m1 cC (first (colls ?sh cC)) ?sh =
        walk (m1 - length LC) cC None (?sh\<lparr>trace := trace ?sh @ map (Pair cC) LC\<rparr>)"
      using assms(7,10,11) n m1 by (intro walk_terminals) auto
    moreover obtain m2 where "m1 - length LC = Suc m2"
      using assms(11) n m1 by (cases "m1 - length LC") auto
    ultimately show ?thesis using assms(3,4) by (simp add: batch_def)
  qed
  have "exec n (HandleChangeWrapper P) s = walk m cP (first (colls s cP)) s"
    using assms(1,2) by (simp add: n batch_def)
  also have "\<dots> = walk (m - length LA) cP (Some hC) ?sA"
    using pa assms(9,11) n by (intro walk_terminals) auto
  also have "\<dots> = walk (Suc (Suc m1)) cP (nexts (colls s cP) hC) ?sC"
    using inner assms(8) by (simp add: m1 seq_def nexts_def)
  also have "\<dots> = walk (Suc (Suc m1) - length LB) cP None
        (?sC\<lparr>trace := trace ?sC @ map (Pair cP) LB\<rparr>)"
    using pb assms(9,11) n m1 by (intro walk_terminals) auto
  also have "\<dots> = Some (Inr ?sB)"
  proof -
    obtain m3 where "Suc (Suc m1) - length LB = Suc m3"
      using assms(11) n m1 by (cases "Suc (Suc m1) - length LB") auto
    then show ?thesis by simp
  qed
  finally show ?thesis .
qed


text \<open>
  C2, amended. Let \<open>onStateChange\<close> of \<open>P\<close> and of \<open>C\<close> be their \<open>notifyNestedSubs\<close>,
  let the list of \<open>P\<close> hold terminal listeners \<open>LA\<close>, then the handler of \<open>C\<close>, then
  terminal listeners \<open>LB\<close>, and let the list of \<open>C\<close> hold terminal listeners \<open>LC\<close>. A
  change that calls the handler of \<open>P\<close> invokes, once each and in this order: the
  listeners \<open>LA\<close> that \<open>P\<close> registered before \<open>C\<close> attached, the handler of \<open>C\<close> (from
  the \<open>notify\<close> loop of \<open>P\<close>), the listeners \<open>LC\<close> of \<open>C\<close>, and then the listeners \<open>LB\<close>
  that \<open>P\<close> registered after \<open>C\<close> attached. In the scenario: with \<open>markP\<close> registered
  on the root \<open>P\<close> first and \<open>markC\<close> on its child \<open>C\<close> after it, one change of the store
  invokes the handler of \<open>P\<close>, \<open>markP\<close>, the handler of \<open>C\<close>, \<open>markC\<close>.
\<close>

theorem ancestor_first:
  "(\<forall>s P C cP cC LA hC LB LC n.
      listeners (subs s P) = Collection cP \<and>
      onStateChange (subs s P) = Some (NotifyNestedSubs P) \<and>
      listeners (subs s C) = Collection cC \<and>
      onStateChange (subs s C) = Some (NotifyNestedSubs C) \<and>
      cC \<noteq> cP \<and>
      pathto (nexts (colls s cP)) (first (colls s cP)) (LA @ hC # LB) None \<and>
      pathto (nexts (colls s cC)) (first (colls s cC)) LC None \<and>
      callback (heap (colls s cP) hC) = HandleChangeWrapper C \<and>
      (\<forall>l \<in> set (LA @ LB). \<exists>k. callback (heap (colls s cP) l) = Listener k []) \<and>
      (\<forall>l \<in> set LC. \<exists>k. callback (heap (colls s cC) l) = Listener k []) \<and>
      length LA + length LB + length LC + 7 \<le> n \<longrightarrow>
      exec n (HandleChangeWrapper P) s =
        Some (Inr (s\<lparr>trace := trace s @ map (Pair cP) LA @ [(cP, hC)] @
                           map (Pair cC) LC @ map (Pair cP) LB\<rparr>))) \<and>
   (\<exists>s. run 10 [SetOnStateChange (Root i) (Some (NotifyNestedSubs (Root i))),
              SetOnStateChange (Child j (Root i)) (Some (NotifyNestedSubs (Child j (Root i)))),
              AddNestedSub (Root i) (Listener markP []),
              AddNestedSub (Child j (Root i)) (Listener markC []),
              Notify store] init_state = Some (Inr s) \<and>
       invoked s = [HandleChangeWrapper (Root i), Listener markP [],
                    HandleChangeWrapper (Child j (Root i)), Listener markC []])"
proof (rule conjI)
  show "\<exists>s. run 10 [SetOnStateChange (Root i) (Some (NotifyNestedSubs (Root i))),
              SetOnStateChange (Child j (Root i)) (Some (NotifyNestedSubs (Child j (Root i)))),
              AddNestedSub (Root i) (Listener markP []),
              AddNestedSub (Child j (Root i)) (Listener markC []),
              Notify store] init_state = Some (Inr s) \<and>
       invoked s = [HandleChangeWrapper (Root i), Listener markP [],
                    HandleChangeWrapper (Child j (Root i)), Listener markC []]"
    by (simp add: eval_defs eval_nat_numeral)
qed (intro allI impI, elim conjE, rule handler_walk)

theorem ancestor_first_witness:
  "listeners (subs tree_state (Root 0)) = Collection 1 \<and>
   onStateChange (subs tree_state (Root 0)) = Some (NotifyNestedSubs (Root 0)) \<and>
   listeners (subs tree_state (Child 1 (Root 0))) = Collection 2 \<and>
   onStateChange (subs tree_state (Child 1 (Root 0))) = Some (NotifyNestedSubs (Child 1 (Root 0))) \<and>
   pathto (nexts (colls tree_state 1)) (first (colls tree_state 1)) ([0] @ 1 # []) None \<and>
   pathto (nexts (colls tree_state 2)) (first (colls tree_state 2)) [0] None \<and>
   callback (heap (colls tree_state 1) 1) = HandleChangeWrapper (Child 1 (Root 0)) \<and>
   callback (heap (colls tree_state 1) 0) = Listener 7 [] \<and>
   callback (heap (colls tree_state 2) 0) = Listener 8 [] \<and>
   exec 9 (HandleChangeWrapper (Root 0)) tree_state =
     Some (Inr (tree_state\<lparr>trace := [(1, 0), (1, 1), (2, 0)]\<rparr>))"
proof -
  have h: "listeners (subs tree_state (Root 0)) = Collection 1"
    "onStateChange (subs tree_state (Root 0)) = Some (NotifyNestedSubs (Root 0))"
    "listeners (subs tree_state (Child 1 (Root 0))) = Collection 2"
    "onStateChange (subs tree_state (Child 1 (Root 0))) = Some (NotifyNestedSubs (Child 1 (Root 0)))"
    "pathto (nexts (colls tree_state 1)) (first (colls tree_state 1)) ([0] @ 1 # []) None"
    "pathto (nexts (colls tree_state 2)) (first (colls tree_state 2)) [0] None"
    "callback (heap (colls tree_state 1) 1) = HandleChangeWrapper (Child 1 (Root 0))"
    "callback (heap (colls tree_state 1) 0) = Listener 7 []"
    "callback (heap (colls tree_state 2) 0) = Listener 8 []"
    "trace tree_state = []"
    by (simp_all add: tree_state_def eval_defs nexts_def eval_nat_numeral)
  have a: "\<forall>l \<in> set ([0] @ []). \<exists>k. callback (heap (colls tree_state 1) l) = Listener k []"
    and b: "\<forall>l \<in> set [0]. \<exists>k. callback (heap (colls tree_state 2) l) = Listener k []"
    using h(8,9) by simp_all
  have "exec 9 (HandleChangeWrapper (Root 0)) tree_state =
        Some (Inr (tree_state\<lparr>trace := trace tree_state @ map (Pair 1) [0] @ [(1, 1)] @
                           map (Pair 2) [0] @ map (Pair 1) []\<rparr>))"
    by (rule ancestor_first [THEN conjunct1, rule_format,
          of tree_state "Root 0" 1 "Child 1 (Root 0)" 2 "[0]" 1 "[]" "[0]" 9])
       (use h a b in simp)
  with h show ?thesis by simp
qed


section \<open>Unsubscribing while \<open>notify\<close> runs\<close>

lemma pathto_upd_other:
  "p \<notin> set P \<Longrightarrow> pathto (f(p := v)) x P y = pathto f x P y"
  by (induction P arbitrary: x) auto

lemma pathto_agree:
  "(\<And>a. a \<in> set P \<Longrightarrow> g a = f a) \<Longrightarrow> pathto g x P y = pathto f x P y"
  by (induction P arbitrary: x) auto

lemma pathto_mem_next:
  "pathto f x P None \<Longrightarrow> p \<in> set P \<Longrightarrow> f p = Some t \<Longrightarrow> t \<in> set P"
proof (induction P arbitrary: x)
  case Nil
  then show ?case by simp
next
  case (Cons q Q)
  show ?case
  proof (cases "q = p")
    case True
    with Cons.prems show ?thesis by (cases Q) auto
  next
    case False
    with Cons.prems Cons.IH [of "f q"] show ?thesis by auto
  qed
qed

lemma pathto_bypass_aux:
  "pathto f x P None \<Longrightarrow> distinct P \<Longrightarrow> f p = Some t \<Longrightarrow> t \<noteq> p \<Longrightarrow>
   \<forall>a. g a = (if a = p then f t else f a) \<Longrightarrow>
   pathto g x (if p \<in> set P then filter (\<lambda>q. q \<noteq> t) P else P) None"
proof (induction P arbitrary: x)
  case Nil
  then show ?case by simp
next
  case (Cons q Q)
  from Cons.prems have x: "x = Some q" and rest: "pathto f (f q) Q None"
    and dq: "q \<notin> set Q" "distinct Q" by auto
  have g: "g p = f t" "\<And>a. a \<noteq> p \<Longrightarrow> g a = f a" using Cons.prems(5) by simp_all
  have other: "pathto g y R z = pathto f y R z" if "p \<notin> set R" for y R z
  proof (rule pathto_agree)
    fix a assume "a \<in> set R"
    with that have "a \<noteq> p" by auto
    then show "g a = f a" by (rule g(2))
  qed
  show ?case
  proof (cases "q = p")
    case True
    with rest Cons.prems obtain Q1 where Q: "Q = t # Q1" and r1: "pathto f (f t) Q1 None"
      by (cases Q) auto
    have "p \<notin> set Q1" "t \<notin> set Q1" using dq Q True by auto
    then have "pathto g (f t) Q1 None" "filter (\<lambda>q. q \<noteq> t) Q1 = Q1"
      using r1 by (auto simp: other filter_id_conv)
    then have fin: "pathto g (Some q) (p # Q1) None"
      and lst: "(if p \<in> set (q # Q) then filter (\<lambda>q. q \<noteq> t) (q # Q) else q # Q) = p # Q1"
      using True Q Cons.prems(4) g(1) by simp_all
    show ?thesis unfolding lst x by (rule fin)
  next
    case False
    then have gq: "g q = f q" using g(2) by simp
    show ?thesis
    proof (cases "p \<in> set Q")
      case True
      have "t \<in> set Q" using rest True Cons.prems(3) by (rule pathto_mem_next)
      then have "t \<noteq> q" using dq by auto
      moreover have "pathto g (f q) (filter (\<lambda>q. q \<noteq> t) Q) None"
        using Cons.IH [OF rest dq(2) Cons.prems(3,4,5)] True by simp
      ultimately show ?thesis using False True x gq by simp
    next
      case notin: False
      then have "pathto g (f q) Q None"
        using rest by (simp add: other)
      with False notin x gq show ?thesis by simp
    qed
  qed
qed

lemma pathto_bypass:
  "pathto f x P None \<Longrightarrow> distinct P \<Longrightarrow> f p = Some t \<Longrightarrow> t \<noteq> p \<Longrightarrow>
   pathto (f(p := f t)) x (if p \<in> set P then filter (\<lambda>q. q \<noteq> t) P else P) None"
  by (rule pathto_bypass_aux [where f = f and g = "f(p := f t)"]) simp_all

lemma nexts_unsubscribe:
  assumes "isSubscribed r t" "first r \<noteq> None" "next' (heap r t) \<noteq> Some t"
  shows "nexts (unsubscribe t r) =
           (case prev (heap r t) of
              None \<Rightarrow> nexts r
            | Some p \<Rightarrow> (nexts r)(p := nexts r t))"
  using assms
  by (auto simp: nexts_def unsubscribe_def Let_def fun_eq_iff split: option.splits)

lemma linked_mem:
  assumes "linked r L" "t \<in> set L"
  shows "isSubscribed r t" "first r \<noteq> None" "next' (heap r t) \<noteq> Some t"
        "\<And>p. prev (heap r t) = Some p \<Longrightarrow> next' (heap r p) = Some t \<and> p \<noteq> t"
proof -
  have seg: "dseg (heap r) None (first r) L (last' r) None"
    and srt: "sorted_wrt (<) L" using assms by (simp_all add: linked_def)
  show "isSubscribed r t" using assms by (simp add: linked_def)
  show "first r \<noteq> None" using seg assms(2) by (cases L) auto
  obtain as bs where L: "L = as @ t # bs" using assms(2) by (auto dest: split_list)
  have d: "distinct L" using srt by (simp add: strict_sorted_iff)
  from seg L obtain m where
    sa: "dseg (heap r) None (first r) as m (Some t)" and
    pl: "prev (heap r t) = m" and
    sb: "dseg (heap r) (Some t) (next' (heap r t)) bs (last' r) None"
    by (auto simp: dseg_append)
  show "next' (heap r t) \<noteq> Some t" using sb d L by (cases bs) auto
  show "next' (heap r p) = Some t \<and> p \<noteq> t" if "prev (heap r t) = Some p" for p
  proof (cases as rule: rev_cases)
    case Nil
    with sa pl that show ?thesis by simp
  next
    case (snoc as' q)
    with sa have "m = Some q" using dseg_last [OF sa] by simp
    with that pl have "q = p" by simp
    with snoc sa d L show ?thesis by (auto simp: dseg_append)
  qed
qed


lemma unsubscribe_ahead:
  assumes "linked r L" "ahead r a L Q"
  shows "\<exists>Q'. ahead (unsubscribe t r) a (removeAll t L) Q' \<and> set Q' \<subseteq> set Q \<and>
              length Q' \<le> length Q"
proof (cases "t \<in> set L")
  case False
  with assms have "unsubscribe t r = r" "removeAll t L = L"
    by (auto simp: linked_def unsubscribe_def)
  with assms show ?thesis by auto
next
  case True
  note m = linked_mem [OF assms(1) True]
  have path: "pathto (nexts r) (Some a) Q None" and srt: "sorted_wrt (<) Q"
    and cover: "\<forall>l \<in> set L. a < l \<longrightarrow> l \<in> set Q"
    using assms(2) by (simp_all add: ahead_def)
  have dist: "distinct Q" using srt by (simp add: strict_sorted_iff)
  show ?thesis
  proof (cases "prev (heap r t)")
    case None
    then have "nexts (unsubscribe t r) = nexts r"
      using nexts_unsubscribe [OF m(1,2,3)] by simp
    with assms show ?thesis by (auto simp: ahead_def)
  next
    case (Some p)
    then have n: "nexts (unsubscribe t r) = (nexts r)(p := nexts r t)"
      using nexts_unsubscribe [OF m(1,2,3)] by simp
    have pt: "nexts r p = Some t" "t \<noteq> p"
      using m(4) [OF Some] by (auto simp: nexts_def)
    let ?Q = "if p \<in> set Q then filter (\<lambda>q. q \<noteq> t) Q else Q"
    have "pathto (nexts (unsubscribe t r)) (Some a) ?Q None"
      unfolding n using path dist pt by (rule pathto_bypass)
    moreover have "sorted_wrt (<) ?Q" using srt by (simp add: sorted_wrt_filter)
    moreover have "\<forall>l \<in> set (removeAll t L). a < l \<longrightarrow> l \<in> set ?Q"
      using cover by auto
    moreover have "set ?Q \<subseteq> set Q" "length ?Q \<le> length Q" by auto
    ultimately show ?thesis unfolding ahead_def by blast
  qed
qed

lemma fold_unsubscribe_ahead:
  "linked r L \<Longrightarrow> ahead r a L Q \<Longrightarrow>
   \<exists>Q'. linked (fold unsubscribe ts r) (filter (\<lambda>l. l \<notin> set ts) L) \<and>
        ahead (fold unsubscribe ts r) a (filter (\<lambda>l. l \<notin> set ts) L) Q' \<and>
        set Q' \<subseteq> set Q \<and> length Q' \<le> length Q"
proof (induction ts arbitrary: r L Q)
  case Nil
  then show ?case by auto
next
  case (Cons t ts)
  from unsubscribe_ahead [OF Cons.prems, of t] obtain Q1 where
    a1: "ahead (unsubscribe t r) a (removeAll t L) Q1" and
    s1: "set Q1 \<subseteq> set Q" "length Q1 \<le> length Q" by blast
  have l1: "linked (unsubscribe t r) (removeAll t L)"
    using Cons.prems(1) by (rule linked_unsubscribe)
  from Cons.IH [OF l1 a1] obtain Q' where
    "linked (fold unsubscribe ts (unsubscribe t r)) (filter (\<lambda>l. l \<notin> set ts) (removeAll t L))"
    "ahead (fold unsubscribe ts (unsubscribe t r)) a (filter (\<lambda>l. l \<notin> set ts) (removeAll t L)) Q'"
    "set Q' \<subseteq> set Q1" "length Q' \<le> length Q1" by blast
  moreover have "filter (\<lambda>l. l \<notin> set ts) (removeAll t L) = filter (\<lambda>l. l \<notin> set (t # ts)) L"
    by (induction L) auto
  ultimately show ?case using s1 by (intro exI [of _ Q']) auto
qed


lemma with_coll_id: "with_coll c (\<lambda>r. r) s = s"
  by (simp add: with_coll_def)

lemma with_coll_with_coll: "with_coll c g (with_coll c f s) = with_coll c (\<lambda>r. g (f r)) s"
  by (simp add: with_coll_def)

lemma run_unsubscribes:
  "run (Suc n) (map (\<lambda>t. Call (Unsubscribe c t)) ts) s =
     Some (Inr (with_coll c (fold unsubscribe ts) s))"
proof (induction ts arbitrary: s)
  case Nil
  then show ?case by (simp add: with_coll_id)
next
  case (Cons t ts)
  then show ?case by (simp add: seq_def with_coll_with_coll)
qed

lemma exec_unsubscriber:
  "exec (Suc (Suc n)) (unsubscriber c k ts) s = Some (Inr (with_coll c (fold unsubscribe ts) s))"
  by (simp add: unsubscriber_def run_unsubscribes)

lemma callback_fold_unsubscribe:
  "callback (heap (fold unsubscribe ts r) k) = callback (heap r k)"
  by (induction ts arbitrary: r) (simp_all add: callback_unsubscribe)

lemma pathto_Some:
  "pathto f (Some a) Q y \<Longrightarrow> Q = [] \<and> y = Some a \<or> (\<exists>P. Q = a # P \<and> pathto f (f a) P y)"
  by (cases Q) auto

lemma walk_unsubscribers:
  assumes "linked (colls s c) L"
    and "pathto (nexts (colls s c)) x P None"
    and "sorted_wrt (<) P"
    and "\<forall>l \<in> set L. b \<le> l \<longrightarrow> l \<in> set P"
    and "\<forall>p \<in> set P. b \<le> p"
    and "\<forall>p \<in> set P. callback (heap (colls s c) p) = unsubscriber c (lbl p) (tg p)"
    and "length P + 2 \<le> n"
  shows "\<exists>s' V. walk n c x s = Some (Inr s') \<and> trace s' = trace s @ map (Pair c) V \<and>
           sorted_wrt (<) V \<and> set V \<subseteq> set P \<and>
           (\<forall>l \<in> set L. b \<le> l \<longrightarrow> l \<in> set V \<or> (\<exists>v \<in> set V. v < l \<and> l \<in> set (tg v))) \<and>
           (\<exists>L'. linked (colls s' c) L' \<and> set L' \<subseteq> set L)"
  using assms
proof (induction n arbitrary: s x L P b)
  case 0
  then show ?case by simp
next
  case (Suc n)
  show ?case
  proof (cases P)
    case Nil
    with Suc.prems(2) have "x = None" by simp
    moreover have "\<forall>l \<in> set L. \<not> b \<le> l" using Suc.prems(4) Nil by auto
    ultimately show ?thesis using Suc.prems(1) Nil
      by (intro exI [of _ s] exI [of _ "[]"]) auto
  next
    case (Cons a P0)
    with Suc.prems(2) have x: "x = Some a"
      and p0: "pathto (nexts (colls s c)) (nexts (colls s c) a) P0 None" by simp_all
    from Suc.prems(7) Cons obtain m where n: "n = Suc (Suc m)"
      by (cases n; cases "n - 1") auto
    let ?s0 = "s\<lparr>trace := trace s @ [(c, a)]\<rparr>"
    let ?r1 = "fold unsubscribe (tg a) (colls s c)"
    let ?s1 = "with_coll c (fold unsubscribe (tg a)) ?s0"
    let ?L1 = "filter (\<lambda>l. l \<notin> set (tg a)) L"
    have cb: "callback (heap (colls s c) a) = unsubscriber c (lbl a) (tg a)"
      using Suc.prems(6) Cons by simp
    have ex: "exec n (callback (heap (colls s c) a)) ?s0 = Some (Inr ?s1)"
      unfolding cb n by (rule exec_unsubscriber)
    have r1: "colls ?s1 c = ?r1" by (simp add: with_coll_def)
    have ah: "ahead (colls s c) a L (a # P0)"
      using Suc.prems(2,3,4,5) Cons x by (auto simp: ahead_def)
    from fold_unsubscribe_ahead [OF Suc.prems(1) ah, of "tg a"] obtain Q' where
      l1: "linked ?r1 ?L1" and a1: "ahead ?r1 a ?L1 Q'"
      and q1: "set Q' \<subseteq> set (a # P0)" "length Q' \<le> length (a # P0)" by blast
    from a1 have "pathto (nexts ?r1) (Some a) Q' None" by (simp add: ahead_def)
    then obtain P1 where Q': "Q' = a # P1" and p1: "pathto (nexts ?r1) (nexts ?r1 a) P1 None"
      using pathto_Some by blast
    have s1: "sorted_wrt (<) P1" and gt: "\<forall>p \<in> set P1. a < p"
      using a1 Q' by (auto simp: ahead_def)
    have sub: "set P1 \<subseteq> set P0" using q1(1) Q' gt by auto
    have i1: "linked (colls ?s1 c) ?L1" using l1 r1 by simp
    have i2: "pathto (nexts (colls ?s1 c)) (nexts ?r1 a) P1 None" using p1 r1 by simp
    have i4: "\<forall>l \<in> set ?L1. Suc a \<le> l \<longrightarrow> l \<in> set P1"
      using a1 Q' by (auto simp: ahead_def)
    have i5: "\<forall>p \<in> set P1. Suc a \<le> p" using gt by auto
    have i6: "\<forall>p \<in> set P1. callback (heap (colls ?s1 c) p) = unsubscriber c (lbl p) (tg p)"
      using Suc.prems(6) sub Cons by (auto simp: r1 callback_fold_unsubscribe)
    have i7: "length P1 + 2 \<le> n" using q1(2) Q' Suc.prems(7) Cons by simp
    from Suc.IH [OF i1 i2 s1 i4 i5 i6 i7]
    obtain s' V where
      w: "walk n c (nexts ?r1 a) ?s1 = Some (Inr s')" and
      t: "trace s' = trace ?s1 @ map (Pair c) V" and
      sv: "sorted_wrt (<) V" "set V \<subseteq> set P1" and
      cv: "\<forall>l \<in> set ?L1. Suc a \<le> l \<longrightarrow> l \<in> set V \<or> (\<exists>v \<in> set V. v < l \<and> l \<in> set (tg v))" and
      lk: "\<exists>L'. linked (colls s' c) L' \<and> set L' \<subseteq> set ?L1" by blast
    have "walk (Suc n) c x s = Some (Inr s')"
      using ex w r1 by (simp add: x seq_def nexts_def)
    moreover have "trace s' = trace s @ map (Pair c) (a # V)"
      using t by (simp add: with_coll_def)
    moreover have "sorted_wrt (<) (a # V)" using sv gt by auto
    moreover have "set (a # V) \<subseteq> set P" using sv sub Cons by auto
    moreover have "\<forall>l \<in> set L. b \<le> l \<longrightarrow>
        l \<in> set (a # V) \<or> (\<exists>v \<in> set (a # V). v < l \<and> l \<in> set (tg v))"
    proof (intro ballI impI)
      fix l assume l: "l \<in> set L" "b \<le> l"
      then have "l \<in> set (a # P0)" using Suc.prems(4) Cons by auto
      then consider "l = a" | "l \<in> set P0" "a < l" using Suc.prems(3) Cons by auto
      then show "l \<in> set (a # V) \<or> (\<exists>v \<in> set (a # V). v < l \<and> l \<in> set (tg v))"
      proof cases
        case 1
        then show ?thesis by simp
      next
        case 2
        show ?thesis
        proof (cases "l \<in> set (tg a)")
          case True
          with 2 show ?thesis by auto
        next
          case False
          with l 2 have "l \<in> set ?L1" "Suc a \<le> l" by auto
          with cv show ?thesis by auto
        qed
      qed
    qed
    moreover have "\<exists>L'. linked (colls s' c) L' \<and> set L' \<subseteq> set L"
      using lk by auto
    ultimately show ?thesis by blast
  qed
qed


lemma notify_unsubscribers:
  assumes "linked (colls s c) xs"
    and "\<forall>l \<in> set xs. callback (heap (colls s c) l) = unsubscriber c (lbl l) (tg l)"
  shows "\<exists>n s' V. notify n c s = Some (Inr s') \<and> trace s' = trace s @ map (Pair c) V \<and>
           sorted_wrt (<) V \<and> set V \<subseteq> set xs \<and>
           (\<forall>l \<in> set xs. l \<in> set V \<or> (\<exists>v \<in> set V. v < l \<and> l \<in> set (tg v)))"
proof -
  have seg: "dseg (heap (colls s c)) None (first (colls s c)) xs (last' (colls s c)) None"
    and srt: "sorted_wrt (<) xs" using assms(1) by (simp_all add: linked_def)
  have p: "pathto (nexts (colls s c)) (first (colls s c)) xs None"
    using dseg_next_path [OF seg] by (simp add: nexts_def [abs_def])
  have "\<exists>s' V. walk (length xs + 2) c (first (colls s c)) s = Some (Inr s') \<and>
           trace s' = trace s @ map (Pair c) V \<and>
           sorted_wrt (<) V \<and> set V \<subseteq> set xs \<and>
           (\<forall>l \<in> set xs. 0 \<le> l \<longrightarrow> l \<in> set V \<or> (\<exists>v \<in> set V. v < l \<and> l \<in> set (tg v))) \<and>
           (\<exists>L'. linked (colls s' c) L' \<and> set L' \<subseteq> set xs)"
    using assms(1) p srt _ _ assms(2) by (rule walk_unsubscribers) simp_all
  then show ?thesis
    by (simp add: batch_def) blast
qed

text \<open>
  C1. Take a collection whose list is \<open>xs\<close> and whose callbacks call \<open>unsubscribe\<close>
  closures of that collection from their bodies: the callback of the handle \<open>l\<close>
  calls those of \<open>tg l\<close>, be they visited already, being visited or not yet visited.
  Then \<open>notify\<close> returns, with no exception; the handles \<open>V\<close> it invoked are handles
  of \<open>xs\<close>, in strict registration order, so none twice; and every handle of \<open>xs\<close>
  was invoked, unless the callback of a handle registered before it, invoked in this
  pass, unsubscribed it. In the scenario, \<open>notify\<close> invokes the first and the third
  callback, whose body unsubscribes the first handle; the pass completes, and the
  next \<open>notify\<close> invokes the third callback only.
\<close>

theorem notify_in_order_despite_unsubscribe:
  "(\<forall>s c xs lbl tg.
      linked (colls s c) xs \<and>
      (\<forall>l \<in> set xs. callback (heap (colls s c) l) = unsubscriber c (lbl l) (tg l)) \<longrightarrow>
      (\<exists>n s' V. notify n c s = Some (Inr s') \<and> trace s' = trace s @ map (Pair c) V \<and>
         sorted_wrt (<) V \<and> set V \<subseteq> set xs \<and>
         (\<forall>l \<in> set xs. l \<in> set V \<or> (\<exists>v \<in> set V. v < l \<and> l \<in> set (tg v))))) \<and>
   (\<exists>s1 s2. run 4 scenario init_state = Some (Inr s1) \<and>
      invoked s1 = [Listener 1 [], Listener 3 [Call (Unsubscribe 1 0)]] \<and>
      get (colls s1 1) = Some [2] \<and>
      notify 3 1 s1 = Some (Inr s2) \<and>
      invoked s2 = [Listener 1 [], Listener 3 [Call (Unsubscribe 1 0)],
                    Listener 3 [Call (Unsubscribe 1 0)]] \<and>
      get (colls s2 1) = Some [2])"
proof (rule conjI)
  show "\<forall>s c xs lbl tg.
      linked (colls s c) xs \<and>
      (\<forall>l \<in> set xs. callback (heap (colls s c) l) = unsubscriber c (lbl l) (tg l)) \<longrightarrow>
      (\<exists>n s' V. notify n c s = Some (Inr s') \<and> trace s' = trace s @ map (Pair c) V \<and>
         sorted_wrt (<) V \<and> set V \<subseteq> set xs \<and>
         (\<forall>l \<in> set xs. l \<in> set V \<or> (\<exists>v \<in> set V. v < l \<and> l \<in> set (tg v))))"
    using notify_unsubscribers by blast
  show "\<exists>s1 s2. run 4 scenario init_state = Some (Inr s1) \<and>
      invoked s1 = [Listener 1 [], Listener 3 [Call (Unsubscribe 1 0)]] \<and>
      get (colls s1 1) = Some [2] \<and>
      notify 3 1 s1 = Some (Inr s2) \<and>
      invoked s2 = [Listener 1 [], Listener 3 [Call (Unsubscribe 1 0)],
                    Listener 3 [Call (Unsubscribe 1 0)]] \<and>
      get (colls s2 1) = Some [2]"
    by (simp add: scenario_def eval_defs eval_nat_numeral get_def get_loop.simps)
qed

theorem notify_in_order_despite_unsubscribe_witness:
  "linked (colls (with_coll 1 (\<lambda>r. scenario_collection) init_state) 1) [0, 2] \<and>
   callback (heap (colls (with_coll 1 (\<lambda>r. scenario_collection) init_state) 1) 0)
     = unsubscriber 1 1 [] \<and>
   callback (heap (colls (with_coll 1 (\<lambda>r. scenario_collection) init_state) 1) 2)
     = unsubscriber 1 3 [0] \<and>
   (\<exists>n s' V. notify n 1 (with_coll 1 (\<lambda>r. scenario_collection) init_state) = Some (Inr s') \<and>
      trace s' = map (Pair 1) V \<and> sorted_wrt (<) V \<and> set V \<subseteq> {0, 2} \<and>
      0 \<in> set V \<and> 2 \<in> set V)"
proof -
  let ?s = "with_coll 1 (\<lambda>r. scenario_collection) init_state"
  have l: "linked (colls ?s 1) [0, 2]"
    using linked_calls [OF linked_create, of
      "[SubscribeCall (unsubscriber 1 1 []), SubscribeCall (unsubscriber 1 2 []),
        SubscribeCall (unsubscriber 1 3 [0]), UnsubscribeCall 1]"]
    by (simp add: scenario_collection_def with_coll_def createListenerCollection_def upt_rec
        eval_nat_numeral)
  have c: "callback (heap (colls ?s 1) 0) = unsubscriber 1 1 []"
     "callback (heap (colls ?s 1) 2) = unsubscriber 1 3 [0]"
    by (simp_all add: scenario_collection_def with_coll_def callback_unsubscribe
        callback_subscribe fresh_subscribe createListenerCollection_def eval_nat_numeral)
  have t: "trace ?s = []" by (simp add: with_coll_def init_state_def)
  from c have cb: "\<forall>l \<in> set [0, 2]. callback (heap (colls ?s 1) l)
      = unsubscriber 1 (if l = 0 then 1 else 3) (if l = 0 then [] else [0])" by simp
  have "\<exists>n s' V. notify n 1 ?s = Some (Inr s') \<and> trace s' = trace ?s @ map (Pair 1) V \<and>
         sorted_wrt (<) V \<and> set V \<subseteq> set [0, 2] \<and>
         (\<forall>l \<in> set [0, 2]. l \<in> set V \<or>
            (\<exists>v \<in> set V. v < l \<and> l \<in> set (if v = 0 then [] else [0::nat])))"
    by (rule notify_in_order_despite_unsubscribe [THEN conjunct1, rule_format,
          of ?s 1 "[0, 2]" "\<lambda>l. if l = 0 then 1 else 3" "\<lambda>l. if l = 0 then [] else [0]",
          OF conjI [OF l cb]])
  then obtain n s' V where
    "notify n 1 ?s = Some (Inr s')" "trace s' = trace ?s @ map (Pair 1) V"
    "sorted_wrt (<) V" "set V \<subseteq> set [0, 2]" "0 \<in> set V" "2 \<in> set V"
    by (auto split: if_splits)
  with l c t show ?thesis by auto
qed


section \<open>Subscribing while \<open>notify\<close> runs\<close>


















end
